theory Spec2Isabelle
  imports Main "HOL-Library.Word"
begin

section \<open>FeoBlog web client: common.ts\<close>

text \<open>
  A shallow embedding of \<^verbatim>\<open>src/web-client/ts/common.ts\<close>: the user-ID validator
  (\<^verbatim>\<open>parseUserID\<close>, \<^verbatim>\<open>parseUserIDError\<close>), the server-URL validator
  (\<^verbatim>\<open>validateServerURL\<close>), the bounded prefetch generator (\<^verbatim>\<open>prefetch\<close>) and
  the task tracker (\<^verbatim>\<open>TaskTracker\<close>).

  JavaScript strings are modelled as \<open>string\<close>, a \<^verbatim>\<open>Uint8Array\<close> as a list of bytes,
  a thrown value as the left injection of a sum.
\<close>

subsection \<open>User IDs\<close>

type_synonym byte = "8 word"

definition USER_ID_BYTES :: nat where
  "USER_ID_BYTES = 32"

definition PASSWORD_BYTES :: nat where
  "PASSWORD_BYTES = USER_ID_BYTES + 4"

text \<open>
  \<^verbatim>\<open>bs58.decode\<close> belongs to the npm package \<^verbatim>\<open>bs58\<close>, not to this repository. The
  embedding takes it as the parameter \<open>decode\<close>: \<open>None\<close> when the library throws,
  \<open>Some buf\<close> when it returns the buffer \<open>buf\<close>.
\<close>

type_synonym decoder = "string \<Rightarrow> byte list option"

text \<open>
  \<^verbatim>\<open>parseUserID\<close> throws a string or returns the buffer: \<open>Inl\<close> carries the thrown
  message. The checks are in the order of the source.
\<close>

definition parseUserID :: "decoder \<Rightarrow> string \<Rightarrow> string + byte list" where
  "parseUserID decode userID =
     (if length userID = 0 then Inl ''UserID must not be empty.''
      else case decode userID of
        None \<Rightarrow> Inl ''Not valid base58''
      | Some buf \<Rightarrow>
          if length buf < USER_ID_BYTES then Inl ''UserID too short''
          else if length buf = PASSWORD_BYTES then Inl ''UserID too long. (This may be a paswword!?)''
          else if length buf > USER_ID_BYTES then Inl ''UserID too long.''
          else Inr buf)"

text \<open>
  \<^verbatim>\<open>parseUserIDError\<close>: the \<^verbatim>\<open>catch\<close> returns whatever \<^verbatim>\<open>parseUserID\<close> threw, the
  normal path returns the empty string.
\<close>

definition parseUserIDError :: "decoder \<Rightarrow> string \<Rightarrow> string" where
  "parseUserIDError decode userID =
     (case parseUserID decode userID of
        Inl errorMessage \<Rightarrow> errorMessage
      | Inr _ \<Rightarrow> '''')"

text \<open>
  A decoder for concrete evaluations: base58 over the Bitcoin alphabet, the encoding the
  \<^verbatim>\<open>bs58\<close> package implements. Every leading \<open>1\<close> stands for a zero byte, the rest is
  a number in base 58 written out in big-endian bytes; a character outside the alphabet
  is an error. The theorems below hold for every decoder.
\<close>

definition ALPHABET :: string where
  "ALPHABET = ''123456789ABCDEFGHJKLMNPQRSTUVWXYZabcdefghijkmnopqrstuvwxyz''"

fun index_of :: "char \<Rightarrow> string \<Rightarrow> nat option" where
  "index_of c [] = None"
| "index_of c (a # as) =
     (if c = a then Some 0 else map_option Suc (index_of c as))"

fun digits_of :: "string \<Rightarrow> nat list option" where
  "digits_of [] = Some []"
| "digits_of (c # cs) =
     (case index_of c ALPHABET of
        None \<Rightarrow> None
      | Some d \<Rightarrow> map_option ((#) d) (digits_of cs))"

function bytes_of :: "nat \<Rightarrow> byte list \<Rightarrow> byte list" where
  "bytes_of n acc =
     (if n = 0 then acc else bytes_of (n div 256) (of_nat (n mod 256) # acc))"
  by pat_completeness auto
termination
  by (relation "measure fst") auto

declare bytes_of.simps [simp del]

definition base58_decode :: decoder where
  "base58_decode s =
     (case digits_of s of
        None \<Rightarrow> None
      | Some ds \<Rightarrow>
          let zeros = takeWhile (\<lambda>d. d = 0) ds;
              n = foldl (\<lambda>acc d. acc * 58 + d) 0 (dropWhile (\<lambda>d. d = 0) ds)
          in Some (replicate (length zeros) 0 @ bytes_of n []))"

subsection \<open>Server URLs\<close>

text \<open>
  The regular expression \<^verbatim>\<open>/^(https?:\/\/[^/ ]+)$/\<close> uses three kinds of item: one
  character, an optional character (\<^verbatim>\<open>?\<close>) and a repeated character class (\<^verbatim>\<open>+\<close>).
  A pattern is the list of its items; \<open>rx_match\<close> is the backtracking matcher,
  anchored at both ends as \<^verbatim>\<open>^\<close> and \<^verbatim>\<open>$\<close> (without the multiline flag) demand. The
  capture group does not change which strings match.
\<close>

datatype atom = Ch char | NoneOf "char list"

datatype item = One atom | Optional atom | OneOrMore atom

fun atom_ok :: "atom \<Rightarrow> char \<Rightarrow> bool" where
  "atom_ok (Ch a) c = (c = a)"
| "atom_ok (NoneOf cs) c = (c \<notin> set cs)"

fun rx_match :: "item list \<Rightarrow> string \<Rightarrow> bool" where
  "rx_match [] s = (s = [])"
| "rx_match (One a # r) [] = False"
| "rx_match (One a # r) (c # cs) = (atom_ok a c \<and> rx_match r cs)"
| "rx_match (Optional a # r) [] = rx_match r []"
| "rx_match (Optional a # r) (c # cs) =
     ((atom_ok a c \<and> rx_match r cs) \<or> rx_match r (c # cs))"
| "rx_match (OneOrMore a # r) [] = False"
| "rx_match (OneOrMore a # r) (c # cs) =
     (atom_ok a c \<and> (rx_match (OneOrMore a # r) cs \<or> rx_match r cs))"

definition serverURLPattern :: "item list" where
  "serverURLPattern =
     map (One \<circ> Ch) ''http'' @ [Optional (Ch CHR ''s'')] @ map (One \<circ> Ch) ''://''
       @ [OneOrMore (NoneOf ''/ '')]"

definition validateServerURL :: "string \<Rightarrow> string" where
  "validateServerURL url =
     (if url = '''' then ''''
      else if \<not> rx_match serverURLPattern url then ''Invalid server URL format''
      else '''')"

text \<open>
  The spec's wording of an acceptable URL, to compare with the pattern: scheme
  \<open>http\<close> or \<open>https\<close>, then \<open>://\<close>, then a non-empty host without \<open>/\<close> and
  without a space.
\<close>

definition http_host_url :: "string \<Rightarrow> bool" where
  "http_host_url url \<longleftrightarrow>
     (\<exists>host. host \<noteq> [] \<and> CHR ''/'' \<notin> set host \<and> CHR '' '' \<notin> set host \<and>
        (url = ''http://'' @ host \<or> url = ''https://'' @ host))"

subsection \<open>The bounded prefetch generator\<close>

text \<open>
  \<^verbatim>\<open>asyncFilter(item)\<close> returns a promise at once. A promise is modelled by what it
  settles to (\<open>Inl\<close> a rejection, \<open>Inr\<close> the value) and by the time at which it settles;
  the source sequence by the list of the items it will produce; the bound \<^verbatim>\<open>count\<close> by
  a natural number, as the spec's interface has it (a non-negative integer; the
  TypeScript type \<^verbatim>\<open>Number\<close> also has negative, fractional and NaN values, which
  are not modelled). With such a bound \<^verbatim>\<open>outs.shift()\<close> is never called on an empty
  array.
\<close>

record ('b, 'e) promise =
  settles_at :: nat
  outcome :: "'e + 'b"

text \<open>
  What the generator does that its caller and its transform can observe: a call of the
  transform, a value yielded, an error raised out of the generator. \<open>YieldedUndefined\<close>
  is \<^verbatim>\<open>yield undefined\<close>, what \<^verbatim>\<open>yield assertExists(outs.shift())\<close> would do on an
  empty array (\<^verbatim>\<open>assertExists\<close> is a cast and checks nothing).
\<close>

datatype ('a, 'b, 'e) event = Submitted 'a | Yielded 'b | YieldedUndefined | Raised 'e

text \<open>
  The control points of the generator body: the head of \<^verbatim>\<open>for await (let item of items)\<close>,
  the head of \<^verbatim>\<open>while (outs.length > count)\<close>, the head of \<^verbatim>\<open>while (outs.length > 0)\<close>,
  and the two ways a generator ends: by returning and by throwing.
\<close>

datatype label = ForAwait | WhileOver | WhileDrain | Returned | Thrown

record ('a, 'b, 'e) generator =
  items :: "'a list"
  outs :: "('b, 'e) promise list"
  at :: label
  trace :: "('a, 'b, 'e) event list"
  clock :: nat

text \<open>\<^verbatim>\<open>Array.prototype.shift\<close>: the first element, or \<^verbatim>\<open>undefined\<close> on an empty array.\<close>

definition shift :: "'x list \<Rightarrow> 'x option \<times> 'x list" where
  "shift xs = (case xs of [] \<Rightarrow> (None, []) | x # rest \<Rightarrow> (Some x, rest))"

text \<open>
  \<^verbatim>\<open>yield assertExists(outs.shift())\<close>. A \<^verbatim>\<open>yield\<close> of an async generator awaits its
  operand: the generator waits until the promise has settled (the clock moves on to
  the settling time when that is later), then hands its value to the consumer, or throws
  its rejection, which ends the generator.
\<close>

definition yield_shift :: "('a, 'b, 'e) generator \<Rightarrow> ('a, 'b, 'e) generator" where
  "yield_shift g =
     (case shift (outs g) of
        (None, rest) \<Rightarrow> g\<lparr>outs := rest, trace := trace g @ [YieldedUndefined]\<rparr>
      | (Some p, rest) \<Rightarrow>
          (case outcome p of
             Inr v \<Rightarrow> g\<lparr>outs := rest, trace := trace g @ [Yielded v],
                        clock := max (clock g) (settles_at p)\<rparr>
           | Inl e \<Rightarrow> g\<lparr>outs := rest, at := Thrown, trace := trace g @ [Raised e],
                        clock := max (clock g) (settles_at p)\<rparr>))"

text \<open>
  One step of the generator body, from one control point to the next. A generator that
  has ended stays as it is.
\<close>

definition step ::
  "nat \<Rightarrow> ('a \<Rightarrow> ('b, 'e) promise) \<Rightarrow> ('a, 'b, 'e) generator \<Rightarrow> ('a, 'b, 'e) generator" where
  "step count asyncFilter g =
     (case at g of
        ForAwait \<Rightarrow>
          (case items g of
             [] \<Rightarrow> g\<lparr>at := WhileDrain\<rparr>
           | item # rest \<Rightarrow>
               g\<lparr>items := rest, outs := outs g @ [asyncFilter item], at := WhileOver,
                  trace := trace g @ [Submitted item]\<rparr>)
      | WhileOver \<Rightarrow>
          if length (outs g) > count then yield_shift g else g\<lparr>at := ForAwait\<rparr>
      | WhileDrain \<Rightarrow>
          if length (outs g) > 0 then yield_shift g else g\<lparr>at := Returned\<rparr>
      | Returned \<Rightarrow> g
      | Thrown \<Rightarrow> g)"

definition ended :: "('a, 'b, 'e) generator \<Rightarrow> bool" where
  "ended g \<longleftrightarrow> at g = Returned \<or> at g = Thrown"

text \<open>
  The measure that every step of a generator that has not ended decreases: the source
  is finite, so the generator ends.
\<close>

fun rank :: "label \<Rightarrow> nat" where
  "rank WhileOver = 3"
| "rank ForAwait = 2"
| "rank WhileDrain = 1"
| "rank Returned = 0"
| "rank Thrown = 0"

definition left :: "('a, 'b, 'e) generator \<Rightarrow> nat" where
  "left g = 4 * length (items g) + 2 * length (outs g) + rank (at g)"

text \<open>The generator driven to its end by a consumer that takes every result.\<close>

function drive ::
  "nat \<Rightarrow> ('a \<Rightarrow> ('b, 'e) promise) \<Rightarrow> ('a, 'b, 'e) generator \<Rightarrow> ('a, 'b, 'e) generator" where
  "drive count asyncFilter g =
     (if ended g then g else drive count asyncFilter (step count asyncFilter g))"
  by pat_completeness auto
termination
proof (relation "measure (\<lambda>(count, asyncFilter, g). left g)")
  show "wf (measure (\<lambda>(count, asyncFilter, g). left g))"
    by simp
next
  fix count :: nat and asyncFilter :: "'a \<Rightarrow> ('b, 'e) promise" and g :: "('a, 'b, 'e) generator"
  assume "\<not> ended g"
  then have "left (step count asyncFilter g) < left g"
    by (cases "at g"; cases "items g"; cases "outs g")
       (auto simp add: ended_def left_def step_def yield_shift_def shift_def split: sum.splits)
  then show "((count, asyncFilter, step count asyncFilter g), count, asyncFilter, g)
      \<in> measure (\<lambda>(count, asyncFilter, g). left g)"
    by simp
qed

declare drive.simps [simp del]

definition start :: "'a list \<Rightarrow> ('a, 'b, 'e) generator" where
  "start xs = \<lparr>items = xs, outs = [], at = ForAwait, trace = [], clock = 0\<rparr>"

definition prefetch ::
  "'a list \<Rightarrow> nat \<Rightarrow> ('a \<Rightarrow> ('b, 'e) promise) \<Rightarrow> ('a, 'b, 'e) generator" where
  "prefetch xs count asyncFilter = drive count asyncFilter (start xs)"

text \<open>
  What a trace shows: the items handed to the transform, the values yielded, and the
  sequence the consumer receives (every event but the submissions).
\<close>

fun submitted :: "('a, 'b, 'e) event list \<Rightarrow> 'a list" where
  "submitted [] = []"
| "submitted (Submitted x # es) = x # submitted es"
| "submitted (_ # es) = submitted es"

fun yielded :: "('a, 'b, 'e) event list \<Rightarrow> 'b list" where
  "yielded [] = []"
| "yielded (Yielded v # es) = v # yielded es"
| "yielded (_ # es) = yielded es"

fun received :: "('a, 'b, 'e) event list \<Rightarrow> ('a, 'b, 'e) event list" where
  "received [] = []"
| "received (Submitted x # es) = received es"
| "received (ev # es) = ev # received es"

text \<open>
  The number of transforms submitted whose results have not been yielded to the consumer.
\<close>

definition pending :: "('a, 'b, 'e) generator \<Rightarrow> nat" where
  "pending g = length (submitted (trace g)) - length (yielded (trace g))"

text \<open>
  The naive sequential processing the spec compares with: for each item in order, submit
  the transform and await it at once, before the next item is taken from the source.
\<close>

fun sequential :: "('a \<Rightarrow> ('b, 'e) promise) \<Rightarrow> 'a list \<Rightarrow> ('a, 'b, 'e) event list" where
  "sequential asyncFilter [] = []"
| "sequential asyncFilter (item # rest) =
     Submitted item #
       (case outcome (asyncFilter item) of
          Inr v \<Rightarrow> Yielded v # sequential asyncFilter rest
        | Inl e \<Rightarrow> [Raised e])"

text \<open>The state after \<open>n\<close> steps of the generator started on the source \<open>xs\<close>.\<close>

definition reached ::
  "nat \<Rightarrow> ('a \<Rightarrow> ('b, 'e) promise) \<Rightarrow> 'a list \<Rightarrow> nat \<Rightarrow> ('a, 'b, 'e) generator" where
  "reached count asyncFilter xs n = (step count asyncFilter ^^ n) (start xs)"

text \<open>
  What is left to happen in a state, as far as the results are concerned: the outcomes
  of the promises in the window, then those of the items still in the source. \<open>good\<close>
  are the values before the first rejection, \<open>deliver\<close> is what the consumer will
  receive, \<open>quota\<close> bounds the items that will still be submitted, and \<open>fate\<close> is the
  way the generator will end.
\<close>

fun good :: "('e + 'b) list \<Rightarrow> 'b list" where
  "good [] = []"
| "good (Inr v # rs) = v # good rs"
| "good (Inl e # rs) = []"

fun deliver :: "('e + 'b) list \<Rightarrow> ('a, 'b, 'e) event list" where
  "deliver [] = []"
| "deliver (Inr v # rs) = Yielded v # deliver rs"
| "deliver (Inl e # rs) = [Raised e]"

definition plan :: "('a \<Rightarrow> ('b, 'e) promise) \<Rightarrow> ('a, 'b, 'e) generator \<Rightarrow> ('e + 'b) list" where
  "plan f g = (if ended g then [] else map outcome (outs g) @ map (outcome \<circ> f) (items g))"

definition quota :: "nat \<Rightarrow> ('a \<Rightarrow> ('b, 'e) promise) \<Rightarrow> ('a, 'b, 'e) generator \<Rightarrow> nat" where
  "quota count f g =
     (if ended g then 0 else length (good (plan f g)) + count + 1 - length (outs g))"

definition fate :: "('a \<Rightarrow> ('b, 'e) promise) \<Rightarrow> ('a, 'b, 'e) generator \<Rightarrow> label" where
  "fate f g =
     (if ended g then at g
      else if length (good (plan f g)) = length (plan f g) then Returned else Thrown)"

text \<open>
  Two invariants of the generator: the length of the window at each control point, and
  the window as the transforms of the items submitted and not yet delivered.
\<close>

definition in_bounds :: "nat \<Rightarrow> ('a, 'b, 'e) generator \<Rightarrow> bool" where
  "in_bounds count g \<longleftrightarrow>
     (case at g of
        ForAwait \<Rightarrow> length (outs g) \<le> count
      | WhileOver \<Rightarrow> length (outs g) \<le> count + 1
      | WhileDrain \<Rightarrow> length (outs g) \<le> count \<and> items g = []
      | Returned \<Rightarrow> outs g = [] \<and> items g = []
      | Thrown \<Rightarrow> length (outs g) \<le> count)"

definition tracked :: "('a \<Rightarrow> ('b, 'e) promise) \<Rightarrow> ('a, 'b, 'e) generator \<Rightarrow> bool" where
  "tracked f g \<longleftrightarrow>
     length (received (trace g)) \<le> length (submitted (trace g)) \<and>
     outs g = map f (drop (length (received (trace g))) (submitted (trace g))) \<and>
     length (received (trace g)) = length (yielded (trace g)) + (if at g = Thrown then 1 else 0)"

text \<open>
  A transform for concrete runs: the square of \<open>x\<close>, settled the earlier the later the
  item comes, and rejected on the item \<open>bad\<close>.
\<close>

definition squaring :: "nat \<Rightarrow> nat \<Rightarrow> (nat, string) promise" where
  "squaring bad x =
     \<lparr>settles_at = 10 - x, outcome = (if x = bad then Inl ''rejected'' else Inr (x * x))\<rparr>"

subsection \<open>The task tracker\<close>

record LogEntry =
  timestamp :: int
  message :: string
  isError :: "bool option"
  isWarning :: "bool option"

text \<open>
  \<^verbatim>\<open>Writable\<close> is an interface of the package \<^verbatim>\<open>svelte/store\<close>, not of this
  repository. A store is modelled by what \<^verbatim>\<open>set\<close> has been given so far (each time
  the running flag and the log of the tracker at that moment) and by what a call of
  \<^verbatim>\<open>set\<close> throws, if anything: a store runs its subscribers inside \<^verbatim>\<open>set\<close>, and
  they may throw.
\<close>

type_synonym snapshot = "bool \<times> LogEntry list"

record 'x Writable =
  published :: "snapshot list"
  throws :: "snapshot \<Rightarrow> 'x option"

definition set_store :: "'x Writable \<Rightarrow> snapshot \<Rightarrow> 'x option \<times> 'x Writable" where
  "set_store w v = (throws w v, w\<lparr>published := published w @ [v]\<rparr>)"

text \<open>
  The fields of \<^verbatim>\<open>TaskTracker\<close>: \<open>isRunning\<close> and \<open>logs\<close> are \<^verbatim>\<open>_isRunning\<close> and
  \<^verbatim>\<open>_logs\<close>, which the getters of these names return; the store is \<^verbatim>\<open>null\<close>
  (\<open>None\<close>) or a store. \<open>wallclock\<close> is the time that \<^verbatim>\<open>DateTime.local().valueOf()\<close>
  reads. The type \<open>'x\<close> is the type of the values that can be thrown.
\<close>

record 'x TaskTracker =
  store :: "'x Writable option"
  isRunning :: bool
  logs :: "LogEntry list"
  wallclock :: int

text \<open>
  A statement either completes (\<open>None\<close>) or throws a value (\<open>Some e\<close>), and leaves a
  tracker behind in both cases. \<open>assign\<close> is an assignment to a field, which does not
  throw, \<open>block\<close> a sequence of statements, which stops at the first that throws, and
  \<open>try_catch\<close> the \<^verbatim>\<open>try { ... } catch (e) { ... }\<close> of the language: what the
  handler throws is thrown by the whole.
\<close>

type_synonym 'x stmt = "'x TaskTracker \<Rightarrow> 'x option \<times> 'x TaskTracker"

definition assign :: "('x TaskTracker \<Rightarrow> 'x TaskTracker) \<Rightarrow> 'x stmt" where
  "assign update t = (None, update t)"

fun block :: "'x stmt list \<Rightarrow> 'x stmt" where
  "block [] t = (None, t)"
| "block (s # ss) t =
     (case s t of
        (Some e, t') \<Rightarrow> (Some e, t')
      | (None, t') \<Rightarrow> block ss t')"

definition try_catch :: "'x stmt \<Rightarrow> ('x \<Rightarrow> 'x stmt) \<Rightarrow> 'x stmt" where
  "try_catch body handler t =
     (case body t of
        (Some e, t') \<Rightarrow> handler e t'
      | (None, t') \<Rightarrow> (None, t'))"

text \<open>
  The methods of the tracker. \<^verbatim>\<open>notify\<close> throws what \<^verbatim>\<open>store.set(this)\<close> throws;
  \<^verbatim>\<open>clear\<close> and \<^verbatim>\<open>writeLog\<close> change the log first and notify then, so the change
  stays when the notification throws.
\<close>

definition notify :: "'x stmt" where
  "notify t =
     (case store t of
        None \<Rightarrow> (None, t)
      | Some w \<Rightarrow>
          (case set_store w (isRunning t, logs t) of
             (thrown, w') \<Rightarrow> (thrown, t\<lparr>store := Some w'\<rparr>)))"

definition clear :: "'x stmt" where
  "clear t = notify (t\<lparr>logs := []\<rparr>)"

definition writeLog :: "LogEntry \<Rightarrow> 'x stmt" where
  "writeLog entry t = notify (t\<lparr>logs := logs t @ [entry]\<rparr>)"

definition error :: "string \<Rightarrow> 'x stmt" where
  "error msg t =
     writeLog \<lparr>timestamp = wallclock t, message = msg, isError = Some True, isWarning = None\<rparr> t"

definition log :: "string \<Rightarrow> 'x stmt" where
  "log msg t =
     writeLog \<lparr>timestamp = wallclock t, message = msg, isError = None, isWarning = None\<rparr> t"

definition warn :: "string \<Rightarrow> 'x stmt" where
  "warn msg t =
     writeLog \<lparr>timestamp = wallclock t, message = msg, isError = None, isWarning = Some True\<rparr> t"

text \<open>
  \<^verbatim>\<open>TaskTracker.run\<close>. The parameter \<open>asyncTask\<close> is all that happens to the tracker
  while \<^verbatim>\<open>await asyncTask()\<close> is pending, together with how the task ends: it is any
  statement. \<open>describe e\<close> is the conversion of a thrown value to a string that the
  template \<^verbatim>\<open>${e}\<close> performs: \<open>Inr\<close> the text, or \<open>Inl\<close> what the conversion throws
  (a \<^verbatim>\<open>TypeError\<close> for a \<^verbatim>\<open>Symbol\<close>, whatever a \<^verbatim>\<open>toString\<close> of the value
  throws). The conversion happens in the \<^verbatim>\<open>catch\<close> block, which nothing protects.
\<close>

definition caught :: "('x \<Rightarrow> 'x + string) \<Rightarrow> 'x \<Rightarrow> 'x stmt" where
  "caught describe e t =
     (case describe e of
        Inl thrown \<Rightarrow> (Some thrown, t)
      | Inr txt \<Rightarrow> error (''Task threw an exception: '' @ txt) t)"

definition run :: "('x \<Rightarrow> 'x + string) \<Rightarrow> 'x stmt \<Rightarrow> 'x stmt" where
  "run describe asyncTask =
     block
       [clear,
        assign (\<lambda>t. t\<lparr>isRunning := True\<rparr>),
        log ''Begin'',
        try_catch asyncTask (caught describe),
        assign (\<lambda>t. t\<lparr>isRunning := False\<rparr>),
        log ''Done'']"

text \<open>
  The tracker as the task finds it, when nothing has thrown before: cleared, running,
  with the entry \<open>Begin\<close>.
\<close>

definition begun :: "'x TaskTracker \<Rightarrow> 'x TaskTracker" where
  "begun t = snd (log ''Begin'' ((snd (clear t))\<lparr>isRunning := True\<rparr>))"

text \<open>
  A tracker is quiet when its store is \<^verbatim>\<open>null\<close> or a store whose \<^verbatim>\<open>set\<close> does
  not throw.
\<close>

definition quiet :: "'x TaskTracker \<Rightarrow> bool" where
  "quiet t \<longleftrightarrow> (case store t of None \<Rightarrow> True | Some w \<Rightarrow> \<forall>v. throws w v = None)"

text \<open>
  Values and tasks for concrete runs. A thrown value is a string, a symbol or a
  \<^verbatim>\<open>TypeError\<close>; the conversion of a symbol to a string throws a \<^verbatim>\<open>TypeError\<close>.
  One task warns, lets a second pass and throws a string; one logs and completes; one
  throws a symbol; one logs, calls the public \<^verbatim>\<open>clear()\<close> and logs again.
\<close>

datatype thrown = Text string | Symbol | TypeError string

fun to_text :: "thrown \<Rightarrow> thrown + string" where
  "to_text (Text s) = Inr s"
| "to_text Symbol = Inl (TypeError ''Cannot convert a Symbol value to a string'')"
| "to_text (TypeError m) = Inr (''TypeError: '' @ m)"


definition quiet_task :: "thrown stmt" where
  "quiet_task = log ''fetched''"


definition clearing_task :: "thrown stmt" where
  "clearing_task = block [log ''a'', clear, log ''b'']"

definition used_tracker :: "thrown TaskTracker" where
  "used_tracker =
     \<lparr>store = Some \<lparr>published = [], throws = (\<lambda>v. None)\<rparr>, isRunning = False,
      logs = [\<lparr>timestamp = 5, message = ''Done'', isError = None, isWarning = None\<rparr>],
      wallclock = 7\<rparr>"

subsection \<open>The validators: proofs\<close>

lemma parseUserID_cases:
  "parseUserID decode userID =
     (if userID = [] then Inl ''UserID must not be empty.''
      else case decode userID of
        None \<Rightarrow> Inl ''Not valid base58''
      | Some buf \<Rightarrow>
          if length buf < 32 then Inl ''UserID too short''
          else if length buf = 36 then Inl ''UserID too long. (This may be a paswword!?)''
          else if length buf > 32 then Inl ''UserID too long.''
          else Inr buf)"
  by (simp add: parseUserID_def USER_ID_BYTES_def PASSWORD_BYTES_def split: option.split)

lemma digits_of_ones: "digits_of (replicate n CHR ''1'') = Some (replicate n 0)"
  by (induction n) (simp_all add: ALPHABET_def)

lemma base58_decode_ones: "base58_decode (replicate n CHR ''1'') = Some (replicate n 0)"
  by (simp add: base58_decode_def digits_of_ones bytes_of.simps)

lemma base58_decode_zero: "base58_decode ''0'' = None"
  by (simp add: base58_decode_def ALPHABET_def)

text \<open>
  Claim C6. For every input string and every decoder, \<open>parseUserID\<close> returns a buffer or
  throws exactly one of five messages, each under its own condition: the input is empty;
  the input is not valid base58; the decoded buffer is shorter than 32 bytes; it is
  exactly 36 bytes long (the message that points at a password); it is longer than 32
  bytes otherwise. The five conditions exclude one another, and so do the messages.
\<close>
theorem parseUserID_rejections:
  "(parseUserID decode userID = Inl ''UserID must not be empty.'' \<longleftrightarrow> userID = []) \<and>
   (parseUserID decode userID = Inl ''Not valid base58'' \<longleftrightarrow>
      userID \<noteq> [] \<and> decode userID = None) \<and>
   (parseUserID decode userID = Inl ''UserID too short'' \<longleftrightarrow>
      userID \<noteq> [] \<and> (\<exists>buf. decode userID = Some buf \<and> length buf < 32)) \<and>
   (parseUserID decode userID = Inl ''UserID too long. (This may be a paswword!?)'' \<longleftrightarrow>
      userID \<noteq> [] \<and> (\<exists>buf. decode userID = Some buf \<and> length buf = 36)) \<and>
   (parseUserID decode userID = Inl ''UserID too long.'' \<longleftrightarrow>
      userID \<noteq> [] \<and> (\<exists>buf. decode userID = Some buf \<and> length buf > 32 \<and> length buf \<noteq> 36)) \<and>
   ((\<exists>buf. parseUserID decode userID = Inr buf) \<or>
    parseUserID decode userID = Inl ''UserID must not be empty.'' \<or>
    parseUserID decode userID = Inl ''Not valid base58'' \<or>
    parseUserID decode userID = Inl ''UserID too short'' \<or>
    parseUserID decode userID = Inl ''UserID too long. (This may be a paswword!?)'' \<or>
    parseUserID decode userID = Inl ''UserID too long.'')"
  by (auto simp add: parseUserID_cases split: option.split)

theorem parseUserID_rejections_witness:
  "parseUserID base58_decode '''' = Inl ''UserID must not be empty.'' \<and>
   parseUserID base58_decode ''0'' = Inl ''Not valid base58'' \<and>
   parseUserID base58_decode (replicate 31 CHR ''1'') = Inl ''UserID too short'' \<and>
   parseUserID base58_decode (replicate 36 CHR ''1'') =
     Inl ''UserID too long. (This may be a paswword!?)'' \<and>
   parseUserID base58_decode (replicate 33 CHR ''1'') = Inl ''UserID too long.''"
  using parseUserID_rejections [of base58_decode "''''"]
    parseUserID_rejections [of base58_decode "''0''"]
    parseUserID_rejections [of base58_decode "replicate 31 CHR ''1''"]
    parseUserID_rejections [of base58_decode "replicate 36 CHR ''1''"]
    parseUserID_rejections [of base58_decode "replicate 33 CHR ''1''"]
  by (simp add: base58_decode_ones base58_decode_zero)

text \<open>
  Claim C7. Whenever \<open>parseUserID\<close> returns, the buffer is the decoded input and is
  exactly 32 bytes long; and an input that does not decode to exactly 32 bytes (it
  decodes to another length, or does not decode) is rejected.
\<close>
theorem parseUserID_fixed_length:
  "(\<forall>buf. parseUserID decode userID = Inr buf \<longrightarrow> length buf = 32 \<and> decode userID = Some buf) \<and>
   ((\<forall>buf. decode userID = Some buf \<longrightarrow> length buf \<noteq> 32) \<longrightarrow>
      (\<exists>msg. parseUserID decode userID = Inl msg))"
  by (auto simp add: parseUserID_cases split: option.splits if_splits)

theorem parseUserID_fixed_length_witness:
  "parseUserID base58_decode (replicate 32 CHR ''1'') = Inr (replicate 32 0) \<and>
   length (replicate 32 (0 :: byte)) = 32 \<and>
   (\<exists>msg. parseUserID base58_decode (replicate 40 CHR ''1'') = Inl msg)"
proof -
  have "parseUserID base58_decode (replicate 32 CHR ''1'') = Inr (replicate 32 0)"
    by (simp add: parseUserID_cases base58_decode_ones)
  moreover have "\<forall>buf. base58_decode (replicate 40 CHR ''1'') = Some buf \<longrightarrow> length buf \<noteq> 32"
    by (simp add: base58_decode_ones)
  ultimately show ?thesis
    using parseUserID_fixed_length [of base58_decode "replicate 32 CHR ''1''"]
      parseUserID_fixed_length [of base58_decode "replicate 40 CHR ''1''"]
    by simp
qed

lemma one_or_more_none_of:
  "rx_match [OneOrMore (NoneOf cs)] s \<longleftrightarrow> s \<noteq> [] \<and> set s \<inter> set cs = {}"
  by (induction s) auto

lemma rx_match_One:
  "rx_match (One (Ch a) # r) s \<longleftrightarrow> (\<exists>t. s = a # t \<and> rx_match r t)"
  by (cases s) auto

lemma rx_match_Optional:
  "rx_match (Optional (Ch a) # r) s \<longleftrightarrow> (\<exists>t. s = a # t \<and> rx_match r t) \<or> rx_match r s"
  by (cases s) auto

lemma pattern_iff: "rx_match serverURLPattern url \<longleftrightarrow> http_host_url url"
  unfolding serverURLPattern_def http_host_url_def
  by (auto simp add: rx_match_One rx_match_Optional one_or_more_none_of simp del: rx_match.simps)

text \<open>
  Claim C8. \<open>validateServerURL\<close> and \<open>parseUserIDError\<close> return a string on every
  input: no path of either throws. \<open>validateServerURL\<close> returns the empty string exactly
  when the input is empty or is \<open>http://\<close> or \<open>https://\<close> followed by a non-empty host
  without \<open>/\<close> and without a space, and the one reason \<open>Invalid server URL format\<close>
  otherwise. \<open>parseUserIDError\<close> returns the empty string exactly when \<open>parseUserID\<close>
  accepts the input, and the message \<open>parseUserID\<close> throws otherwise.
\<close>
theorem validators_return_strings:
  "(validateServerURL url = '''' \<longleftrightarrow> url = '''' \<or> http_host_url url) \<and>
   (validateServerURL url \<noteq> '''' \<longrightarrow> validateServerURL url = ''Invalid server URL format'') \<and>
   (parseUserIDError decode userID = '''' \<longleftrightarrow> (\<exists>buf. parseUserID decode userID = Inr buf)) \<and>
   (\<forall>msg. parseUserID decode userID = Inl msg \<longrightarrow> parseUserIDError decode userID = msg)"
proof -
  have "validateServerURL url = '''' \<longleftrightarrow> url = '''' \<or> http_host_url url"
    by (simp add: validateServerURL_def pattern_iff)
  moreover have "validateServerURL url \<noteq> '''' \<longrightarrow> validateServerURL url = ''Invalid server URL format''"
    by (simp add: validateServerURL_def)
  moreover have "parseUserIDError decode userID = '''' \<longleftrightarrow> (\<exists>buf. parseUserID decode userID = Inr buf)"
    by (auto simp add: parseUserIDError_def parseUserID_cases split: sum.splits option.splits if_splits)
  moreover have "\<forall>msg. parseUserID decode userID = Inl msg \<longrightarrow> parseUserIDError decode userID = msg"
    by (simp add: parseUserIDError_def)
  ultimately show ?thesis by blast
qed

theorem validators_return_strings_witness:
  "validateServerURL ''https://blog.example.com'' = '''' \<and>
   http_host_url ''https://blog.example.com'' \<and>
   validateServerURL ''https://blog.example.com/'' = ''Invalid server URL format'' \<and>
   \<not> http_host_url ''https://blog.example.com/'' \<and>
   parseUserIDError base58_decode ''0'' = ''Not valid base58'' \<and>
   parseUserIDError base58_decode (replicate 32 CHR ''1'') = ''''"
proof -
  have "validateServerURL ''https://blog.example.com'' = ''''"
    by (simp add: validateServerURL_def serverURLPattern_def)
  moreover have "validateServerURL ''https://blog.example.com/'' \<noteq> ''''"
    by (simp add: validateServerURL_def serverURLPattern_def)
  moreover have "parseUserID base58_decode ''0'' = Inl ''Not valid base58''"
    by (simp add: parseUserID_cases base58_decode_zero)
  moreover have "parseUserID base58_decode (replicate 32 CHR ''1'') = Inr (replicate 32 0)"
    by (simp add: parseUserID_cases base58_decode_ones)
  ultimately show ?thesis
    using validators_return_strings [of "''https://blog.example.com''" base58_decode "''0''"]
      validators_return_strings [of "''https://blog.example.com/''" base58_decode "replicate 32 CHR ''1''"]
    by simp
qed

subsection \<open>The prefetch generator: proofs\<close>

lemma submitted_append [simp]: "submitted (es @ fs) = submitted es @ submitted fs"
  by (induction es rule: submitted.induct) auto
lemma yielded_append [simp]: "yielded (es @ fs) = yielded es @ yielded fs"
  by (induction es rule: yielded.induct) auto
lemma received_append [simp]: "received (es @ fs) = received es @ received fs"
  by (induction es rule: received.induct) auto

lemma drive_ended: "ended g \<Longrightarrow> drive count f g = g"
  by (simp add: drive.simps)
lemma drive_step: "\<not> ended g \<Longrightarrow> drive count f g = drive count f (step count f g)"
  by (subst drive.simps) simp

lemma bounds_start: "in_bounds count (start xs)"
  by (simp add: in_bounds_def start_def)

lemma tracked_start: "tracked f (start xs)"
  by (simp add: tracked_def start_def)

lemma map_drop_Cons: "p # rest = map f (drop n xs) \<Longrightarrow> rest = map f (drop (Suc n) xs)"
  by (metis drop_Suc list.sel(3) map_tl tl_drop)

lemma bounds_step: "in_bounds count g \<Longrightarrow> in_bounds count (step count f g)"
  by (cases "at g"; cases "items g"; cases "outs g")
     (auto simp add: in_bounds_def step_def yield_shift_def shift_def split: sum.splits)

lemma tracked_yield_shift:
  assumes "tracked f g" "outs g = p # rest" "at g \<noteq> Thrown"
  shows "tracked f (yield_shift g)"
proof -
  let ?r = "length (received (trace g))"
  let ?S = "submitted (trace g)"
  from assms(1) have le: "?r \<le> length ?S"
    and window: "outs g = map f (drop ?r ?S)"
    and count: "?r = length (yielded (trace g)) + (if at g = Thrown then 1 else 0)"
    unfolding tracked_def by blast+
  from window assms(2) have rest: "rest = map f (drop (Suc ?r) ?S)"
    by (simp add: map_drop_Cons)
  from window assms(2) have "drop ?r ?S \<noteq> []" by auto
  then have lt: "Suc ?r \<le> length ?S" by simp
  from assms(3) count have r: "?r = length (yielded (trace g))" by simp
  show ?thesis
  proof (cases "outcome p")
    case (Inl e)
    with assms(2) have "yield_shift g =
      g\<lparr>outs := rest, at := Thrown, trace := trace g @ [Raised e],
         clock := max (clock g) (settles_at p)\<rparr>"
      by (simp add: yield_shift_def shift_def)
    with rest lt r show ?thesis by (simp add: tracked_def)
  next
    case (Inr v)
    with assms(2) have "yield_shift g =
      g\<lparr>outs := rest, trace := trace g @ [Yielded v],
         clock := max (clock g) (settles_at p)\<rparr>"
      by (simp add: yield_shift_def shift_def)
    with rest lt r assms(3) show ?thesis by (simp add: tracked_def)
  qed
qed

lemma tracked_step: "tracked f g \<Longrightarrow> tracked f (step count f g)"
proof (cases "at g")
  case ForAwait
  assume "tracked f g"
  with ForAwait show ?thesis
    by (cases "items g") (simp_all add: tracked_def step_def)
next
  case WhileOver
  assume t: "tracked f g"
  show ?thesis
  proof (cases "length (outs g) > count")
    case True
    then obtain p rest where "outs g = p # rest" by (cases "outs g") auto
    with t WhileOver have "tracked f (yield_shift g)" by (simp add: tracked_yield_shift)
    with True WhileOver show ?thesis by (simp add: step_def)
  next
    case False
    with t WhileOver show ?thesis by (simp add: step_def tracked_def)
  qed
next
  case WhileDrain
  assume t: "tracked f g"
  show ?thesis
  proof (cases "length (outs g) > 0")
    case True
    then obtain p rest where "outs g = p # rest" by (cases "outs g") auto
    with t WhileDrain have "tracked f (yield_shift g)" by (simp add: tracked_yield_shift)
    with True WhileDrain show ?thesis by (simp add: step_def)
  next
    case False
    with t WhileDrain show ?thesis by (simp add: step_def tracked_def)
  qed
next
  case Returned
  assume "tracked f g"
  with Returned show ?thesis by (simp add: step_def)
next
  case Thrown
  assume "tracked f g"
  with Thrown show ?thesis by (simp add: step_def)
qed

lemma received_step:
  "in_bounds count g \<Longrightarrow> \<not> ended g \<Longrightarrow>
   received (trace (step count f g)) @ deliver (plan f (step count f g)) =
   received (trace g) @ deliver (plan f g)"
  by (cases "at g"; cases "items g"; cases "outs g")
     (auto simp add: in_bounds_def plan_def ended_def step_def yield_shift_def shift_def split: sum.splits)

lemma submitted_step:
  "in_bounds count g \<Longrightarrow> \<not> ended g \<Longrightarrow>
   submitted (trace (step count f g)) @ take (quota count f (step count f g)) (items (step count f g)) =
   submitted (trace g) @ take (quota count f g) (items g)"
  by (cases "at g"; cases "items g"; cases "outs g")
     (auto simp add: in_bounds_def plan_def quota_def ended_def step_def yield_shift_def shift_def take_Cons' Suc_diff_le split: sum.splits)

lemma fate_step:
  "in_bounds count g \<Longrightarrow> \<not> ended g \<Longrightarrow> fate f (step count f g) = fate f g"
  by (cases "at g"; cases "items g"; cases "outs g")
     (auto simp add: in_bounds_def plan_def fate_def ended_def step_def yield_shift_def shift_def split: sum.splits)

text \<open>
  Two ways to carry a fact of the single steps over to the whole run: a property that
  every step preserves holds at the end, and a quantity that no step changes, on the
  states with such a property, has at the end the value it had at the start.
\<close>

lemma drive_preserves:
  assumes "P g" and "\<And>g. P g \<Longrightarrow> \<not> ended g \<Longrightarrow> P (step count f g)"
  shows "P (drive count f g)"
  using assms
proof (induction count f g rule: drive.induct)
  case (1 count f g)
  show ?case
  proof (cases "ended g")
    case True
    with "1.prems"(1) show ?thesis by (simp add: drive_ended)
  next
    case False
    with "1.prems" have "P (step count f g)" by simp
    with False "1.IH" "1.prems"(2) show ?thesis by (simp add: drive_step)
  qed
qed

lemma drive_constant:
  assumes "P g" and "\<And>g. P g \<Longrightarrow> \<not> ended g \<Longrightarrow> P (step count f g)"
    and "\<And>g. P g \<Longrightarrow> \<not> ended g \<Longrightarrow> Q (step count f g) = Q g"
  shows "Q (drive count f g) = Q g"
  using assms
proof (induction count f g rule: drive.induct)
  case (1 count f g)
  show ?case
  proof (cases "ended g")
    case True
    then show ?thesis by (simp add: drive_ended)
  next
    case False
    with "1.prems" have "P (step count f g)" and "Q (step count f g) = Q g"
      by simp_all
    with False "1.IH" "1.prems"(2,3) show ?thesis by (simp add: drive_step)
  qed
qed

lemma ended_drive: "ended (drive count f g)"
proof (induction count f g rule: drive.induct)
  case (1 count f g)
  then show ?case by (cases "ended g") (simp_all add: drive_ended drive_step)
qed

lemma bounds_drive: "in_bounds count g \<Longrightarrow> in_bounds count (drive count f g)"
  by (rule drive_preserves) (simp_all add: bounds_step)

lemma tracked_drive: "tracked f g \<Longrightarrow> tracked f (drive count f g)"
  by (rule drive_preserves) (simp_all add: tracked_step)

lemma received_drive:
  assumes "in_bounds count g"
  shows "received (trace (drive count f g)) = received (trace g) @ deliver (plan f g)"
proof -
  have "received (trace (drive count f g)) @ deliver (plan f (drive count f g)) =
      received (trace g) @ deliver (plan f g)"
    using assms by (rule drive_constant) (simp_all add: bounds_step received_step)
  then show ?thesis by (simp add: plan_def ended_drive)
qed

lemma submitted_drive:
  assumes "in_bounds count g"
  shows "submitted (trace (drive count f g)) = submitted (trace g) @ take (quota count f g) (items g)"
proof -
  have "submitted (trace (drive count f g)) @
        take (quota count f (drive count f g)) (items (drive count f g)) =
      submitted (trace g) @ take (quota count f g) (items g)"
    using assms by (rule drive_constant) (simp_all add: bounds_step submitted_step)
  then show ?thesis by (simp add: quota_def ended_drive)
qed

lemma fate_drive:
  assumes "in_bounds count g"
  shows "at (drive count f g) = fate f g"
proof -
  have "fate f (drive count f g) = fate f g"
    using assms by (rule drive_constant) (simp_all add: bounds_step fate_step)
  then show ?thesis by (simp add: fate_def ended_drive)
qed

lemma drive_funpow: "\<exists>n. drive count f g = (step count f ^^ n) g"
proof (induction count f g rule: drive.induct)
  case (1 count f g)
  show ?case
  proof (cases "ended g")
    case True
    then have "drive count f g = (step count f ^^ 0) g" by (simp add: drive_ended)
    then show ?thesis by blast
  next
    case False
    with 1 obtain n where "drive count f (step count f g) = (step count f ^^ n) (step count f g)"
      by blast
    with False have "drive count f g = (step count f ^^ Suc n) g"
      by (simp add: drive_step funpow_swap1)
    then show ?thesis by blast
  qed
qed

lemma bounds_funpow: "in_bounds count ((step count f ^^ n) (start xs))"
  by (induction n) (simp_all add: bounds_start bounds_step)

lemma tracked_funpow: "tracked f ((step count f ^^ n) (start xs))"
  by (induction n) (simp_all add: tracked_start tracked_step)

lemma tracked_pending: "tracked f g \<Longrightarrow> pending g = length (outs g) + (if at g = Thrown then 1 else 0)"
  by (auto simp add: tracked_def pending_def)

lemma pending_le: "in_bounds count g \<Longrightarrow> tracked f g \<Longrightarrow> pending g \<le> count + 1"
  by (cases "at g") (auto simp add: in_bounds_def tracked_pending)

lemma conserved_step:
  "submitted (trace (step count f g)) @ items (step count f g) = submitted (trace g) @ items g"
  by (cases "at g"; cases "items g"; cases "outs g")
     (auto simp add: step_def yield_shift_def shift_def split: sum.splits)

lemma conserved_drive:
  "submitted (trace (drive count f g)) @ items (drive count f g) = submitted (trace g) @ items g"
  by (rule drive_constant [where P = "\<lambda>g. True"]) (simp_all add: conserved_step)



lemma good_until: "good (map (Inr \<circ> h) xs @ Inl e # rs) = map h xs"
  by (induction xs) auto

lemma deliver_until: "deliver (map (Inr \<circ> h) xs @ Inl e # rs) = map (Yielded \<circ> h) xs @ [Raised e]"
  by (induction xs) auto

lemma plan_start: "plan f (start xs) = map (outcome \<circ> f) xs"
  by (simp add: plan_def start_def ended_def)



text \<open>
  Claim C5. On the empty source, for every bound and every transform, the generator
  returns with nothing yielded and the transform never called.
\<close>
theorem prefetch_empty_source:
  "received (trace (prefetch [] count f)) = [] \<and>
   submitted (trace (prefetch [] count f)) = [] \<and>
   trace (prefetch [] count f) = [] \<and>
   at (prefetch [] count f) = Returned"
  by (simp add: prefetch_def start_def drive.simps ended_def step_def)

lemma sequential_drive:
  "at g = ForAwait \<Longrightarrow> outs g = [] \<Longrightarrow>
   trace (drive 0 f g) = trace g @ sequential f (items g)"
proof (induction "items g" arbitrary: g)
  case Nil
  then have "drive 0 f g = g\<lparr>at := Returned\<rparr>"
    by (simp add: drive.simps ended_def step_def)
  with Nil show ?case by simp
next
  case (Cons x rest)
  let ?g1 = "g\<lparr>items := rest, outs := [f x], at := WhileOver, trace := trace g @ [Submitted x]\<rparr>"
  from Cons(2) have it: "items g = x # rest" by simp
  with Cons(3,4) have s1: "drive 0 f g = drive 0 f ?g1"
    by (subst drive.simps) (simp add: ended_def step_def)
  show ?case
  proof (cases "outcome (f x)")
    case (Inl e)
    then have "drive 0 f ?g1 =
      ?g1\<lparr>outs := [], at := Thrown, trace := trace ?g1 @ [Raised e],
          clock := max (clock g) (settles_at (f x))\<rparr>"
      by (simp add: drive.simps ended_def step_def yield_shift_def shift_def)
    with s1 Inl it show ?thesis by simp
  next
    case (Inr v)
    let ?g2 = "?g1\<lparr>outs := [], at := ForAwait, trace := trace ?g1 @ [Yielded v],
          clock := max (clock g) (settles_at (f x))\<rparr>"
    let ?h = "step 0 f ?g1"
    from Inr have h: "?h = ?g1\<lparr>outs := [], trace := trace ?g1 @ [Yielded v],
          clock := max (clock g) (settles_at (f x))\<rparr>"
      by (simp add: step_def yield_shift_def shift_def)
    then have "step 0 f ?h = ?g2"
      by (simp add: step_def)
    moreover have "\<not> ended ?g1" "\<not> ended ?h"
      using h by (simp_all add: ended_def)
    ultimately have "drive 0 f ?g1 = drive 0 f ?g2"
      by (simp add: drive_step)
    moreover have "trace (drive 0 f ?g2) = trace ?g2 @ sequential f (items ?g2)"
      by (rule Cons(1)) simp_all
    ultimately show ?thesis using s1 Inr it by simp
  qed
qed

text \<open>
  Claim C3. With \<open>count = 0\<close>, for every source and every transform (failing or not),
  \<open>prefetch\<close> does what the naive sequential processing does, event by event: submit an
  item, await it, yield its result, and only then take the next item. The outputs of the
  two are therefore the same.
\<close>
theorem prefetch_zero_sequential:
  "trace (prefetch xs 0 f) = sequential f xs \<and>
   received (trace (prefetch xs 0 f)) = received (sequential f xs)"
  by (simp add: prefetch_def sequential_drive start_def)

lemma start_sel:
  "items (start xs) = xs" "outs (start xs) = []" "at (start xs) = ForAwait"
  "trace (start xs) = []" "\<not> ended (start xs)"
  by (simp_all add: start_def ended_def)

lemma plan_failing:
  assumes "k < length xs" "outcome (f (xs ! k)) = Inl e"
    "\<forall>i<k. outcome (f (xs ! i)) = Inr (h (xs ! i))"
  shows "plan f (start xs) =
         map (Inr \<circ> h) (take k xs) @ Inl e # map (outcome \<circ> f) (drop (Suc k) xs)"
proof -
  from assms(1) have split: "xs = take k xs @ xs ! k # drop (Suc k) xs"
    by (rule id_take_nth_drop)
  have "map (outcome \<circ> f) (take k xs) = map (Inr \<circ> h) (take k xs)"
  proof (rule nth_equalityI)
    show "length (map (outcome \<circ> f) (take k xs)) = length (map (Inr \<circ> h) (take k xs))"
      by simp
  next
    fix i
    assume "i < length (map (outcome \<circ> f) (take k xs))"
    with assms(1,3) show "map (outcome \<circ> f) (take k xs) ! i = map (Inr \<circ> h) (take k xs) ! i"
      by simp
  qed
  with assms(2) have "map (outcome \<circ> f) (take k xs @ xs ! k # drop (Suc k) xs) =
      map (Inr \<circ> h) (take k xs) @ Inl e # map (outcome \<circ> f) (drop (Suc k) xs)"
    by simp
  with split show ?thesis by (simp add: plan_start)
qed

text \<open>
  Claim C4, as the code has it. If the transform rejects with \<open>e\<close> on the item at
  position \<open>k\<close> of the source and resolves on the items before it, the consumer receives
  the results of the items before position \<open>k\<close>, in order, and then the error \<open>e\<close>, at
  position \<open>k\<close> of the output; the generator ends there. The transform was called once
  on each of the first \<open>k + count + 1\<close> items and on no other, so the failed transform
  is not tried again; the transforms of the up to \<open>count\<close> items after the failed one
  were submitted all the same and are still in the window, untouched; the items after
  those are left in the source and their transforms are never submitted.
\<close>
theorem prefetch_failure_position:
  assumes "k < length xs" "outcome (f (xs ! k)) = Inl e"
    "\<forall>i<k. outcome (f (xs ! i)) = Inr (h (xs ! i))"
  shows "received (trace (prefetch xs count f)) = map (Yielded \<circ> h) (take k xs) @ [Raised e] \<and>
         at (prefetch xs count f) = Thrown \<and>
         submitted (trace (prefetch xs count f)) = take (k + count + 1) xs \<and>
         outs (prefetch xs count f) = map f (drop (k + 1) (take (k + count + 1) xs)) \<and>
         items (prefetch xs count f) = drop (k + count + 1) xs"
proof -
  let ?G = "prefetch xs count f"
  note p = plan_failing [OF assms]
  have b: "in_bounds count (start xs)" by (rule bounds_start)
  from assms(1) have len: "length (good (plan f (start xs))) = k"
    by (simp add: p good_until)
  have r: "received (trace ?G) = map (Yielded \<circ> h) (take k xs) @ [Raised e]"
    using received_drive [OF b, of f] by (simp add: prefetch_def p deliver_until start_sel)
  have "quota count f (start xs) = k + count + 1"
    using len by (simp add: quota_def start_sel)
  then have s: "submitted (trace ?G) = take (k + count + 1) xs"
    using submitted_drive [OF b, of f] by (simp add: prefetch_def start_sel)
  have "length (plan f (start xs)) = length xs"
    by (simp add: plan_start)
  with len assms(1) have a: "at ?G = Thrown"
    using fate_drive [OF b, of f] by (simp add: prefetch_def fate_def start_sel)
  have "tracked f ?G"
    unfolding prefetch_def by (rule tracked_drive) (rule tracked_start)
  then have "outs ?G = map f (drop (length (received (trace ?G))) (submitted (trace ?G)))"
    unfolding tracked_def by blast
  with r s assms(1) have w: "outs ?G = map f (drop (k + 1) (take (k + count + 1) xs))"
    by simp
  have "submitted (trace ?G) @ items ?G = xs"
    using conserved_drive [of count f "start xs"] by (simp add: prefetch_def start_sel)
  with s have "take (k + count + 1) xs @ items ?G = take (k + count + 1) xs @ drop (k + count + 1) xs"
    by simp
  then have i: "items ?G = drop (k + count + 1) xs"
    by (simp only: same_append_eq)
  from r a s w i show ?thesis by simp
qed

theorem prefetch_failure_position_witness:
  "received (trace (prefetch [1, 2, 3, 4, 5, 6] 2 (squaring 3))) =
     [Yielded 1, Yielded 4, Raised ''rejected''] \<and>
   at (prefetch [1, 2, 3, 4, 5, 6] 2 (squaring 3)) = Thrown \<and>
   submitted (trace (prefetch [1, 2, 3, 4, 5, 6] 2 (squaring 3))) = [1, 2, 3, 4, 5] \<and>
   outs (prefetch [1, 2, 3, 4, 5, 6] 2 (squaring 3)) = [squaring 3 4, squaring 3 5] \<and>
   items (prefetch [1, 2, 3, 4, 5, 6] 2 (squaring 3)) = [6]"
proof -
  have "\<forall>i<2. outcome (squaring 3 ([1, 2, 3, 4, 5, 6] ! i)) = Inr (([1, 2, 3, 4, 5, 6] ! i) * ([1, 2, 3, 4, 5, 6] ! i))"
    by (simp add: squaring_def less_Suc_eq eval_nat_numeral)
  moreover have "outcome (squaring 3 ([1, 2, 3, 4, 5, 6] ! 2)) = Inl ''rejected''"
    by (simp add: squaring_def)
  ultimately show ?thesis
    using prefetch_failure_position [of 2 "[1, 2, 3, 4, 5, 6]" "squaring 3" "''rejected''" "\<lambda>x. x * x" 2]
    by (simp add: eval_nat_numeral)
qed

text \<open>
  Claim C4 as stated says that transforms not yet submitted are not cancelled by the
  failure. With the source \<open>[1, 2, 3]\<close>, \<open>count = 0\<close> and a transform that rejects on
  \<open>1\<close>, the generator ends with the error, the items \<open>2\<close> and \<open>3\<close> are still in the
  source and their transforms are never submitted.
\<close>
theorem prefetch_failure_ends_source_counterexample:
  "at (prefetch [1, 2, 3] 0 (squaring 1)) = Thrown \<and>
   items (prefetch [1, 2, 3] 0 (squaring 1)) = [2, 3] \<and>
   2 \<notin> set (submitted (trace (prefetch [1, 2, 3] 0 (squaring 1)))) \<and>
   3 \<notin> set (submitted (trace (prefetch [1, 2, 3] 0 (squaring 1))))"
  by (simp add: prefetch_def start_def drive.simps ended_def step_def yield_shift_def shift_def
      squaring_def)

lemma reached_Suc: "reached count f xs (Suc n) = step count f (reached count f xs n)"
  by (simp add: reached_def)

lemma grow_step:
  "at g = ForAwait \<Longrightarrow> items g \<noteq> [] \<Longrightarrow>
   outs (step count f g) = outs g @ [f (hd (items g))] \<and> items (step count f g) = tl (items g)"
  by (cases "items g") (simp_all add: step_def)

lemma shrink_step:
  "\<not> (at g = ForAwait \<and> items g \<noteq> []) \<Longrightarrow>
   length (outs (step count f g)) \<le> length (outs g) \<and> items (step count f g) = items g"
  by (cases "at g"; cases "items g"; cases "outs g")
     (auto simp add: step_def yield_shift_def shift_def split: sum.splits)

lemma good_resolved: "\<forall>r \<in> set rs. \<exists>v. r = Inr v \<Longrightarrow> length (good rs) = length rs"
  by (induction rs rule: good.induct) auto

text \<open>
  Claim C2, as the code has it. For every source, bound and transform, in every state
  the generator reaches (the state after \<open>n\<close> steps, for every \<open>n\<close>), the transforms
  submitted and not yet yielded (never more yielded than submitted) are at most
  \<open>count + 1\<close>, and so is the window. The window is empty at the start; a step that
  takes an item from the source appends one promise to it, and no other step makes it
  longer. In a state where the generator has returned the window is empty; in a state
  where it has ended by raising the error of a transform, at most \<open>count\<close> promises are
  left in the window. The generator does end, in a state it reaches after finitely
  many steps; with a transform that resolves on every item of the source it ends by
  returning, the window drained.
\<close>
theorem prefetch_window_bounded:
  "length (yielded (trace (reached count f xs n))) \<le>
     length (submitted (trace (reached count f xs n))) \<and>
   pending (reached count f xs n) \<le> count + 1 \<and>
   length (outs (reached count f xs n)) \<le> count + 1 \<and>
   outs (reached count f xs 0) = [] \<and>
   (at (reached count f xs n) = ForAwait \<and> items (reached count f xs n) \<noteq> [] \<longrightarrow>
      outs (reached count f xs (Suc n)) =
        outs (reached count f xs n) @ [f (hd (items (reached count f xs n)))] \<and>
      items (reached count f xs (Suc n)) = tl (items (reached count f xs n))) \<and>
   (\<not> (at (reached count f xs n) = ForAwait \<and> items (reached count f xs n) \<noteq> []) \<longrightarrow>
      length (outs (reached count f xs (Suc n))) \<le> length (outs (reached count f xs n)) \<and>
      items (reached count f xs (Suc n)) = items (reached count f xs n)) \<and>
   (at (reached count f xs n) = Returned \<longrightarrow>
      outs (reached count f xs n) = [] \<and> pending (reached count f xs n) = 0) \<and>
   (at (reached count f xs n) = Thrown \<longrightarrow> length (outs (reached count f xs n)) \<le> count) \<and>
   (\<exists>m. prefetch xs count f = reached count f xs m) \<and>
   ended (prefetch xs count f) \<and>
   ((\<forall>x \<in> set xs. \<exists>v. outcome (f x) = Inr v) \<longrightarrow>
      at (prefetch xs count f) = Returned \<and> outs (prefetch xs count f) = [])"
proof -
  let ?g = "reached count f xs n"
  have b: "in_bounds count ?g"
    unfolding reached_def by (rule bounds_funpow)
  have t: "tracked f ?g"
    unfolding reached_def by (rule tracked_funpow)
  have 0: "length (yielded (trace ?g)) \<le> length (submitted (trace ?g))"
    using t unfolding tracked_def by (simp split: if_splits)
  have 1: "pending ?g \<le> count + 1"
    using b t by (rule pending_le)
  have 2: "length (outs ?g) \<le> count + 1"
    using b by (cases "at ?g") (auto simp add: in_bounds_def)
  have 3: "outs (reached count f xs 0) = []"
    by (simp add: reached_def start_sel)
  have 4: "at ?g = ForAwait \<and> items ?g \<noteq> [] \<longrightarrow>
      outs (reached count f xs (Suc n)) = outs ?g @ [f (hd (items ?g))] \<and>
      items (reached count f xs (Suc n)) = tl (items ?g)"
    by (simp add: reached_Suc grow_step)
  have 5: "\<not> (at ?g = ForAwait \<and> items ?g \<noteq> []) \<longrightarrow>
      length (outs (reached count f xs (Suc n))) \<le> length (outs ?g) \<and>
      items (reached count f xs (Suc n)) = items ?g"
    unfolding reached_Suc using shrink_step [of ?g count f] by blast
  have 6: "at ?g = Returned \<longrightarrow> outs ?g = [] \<and> pending ?g = 0"
    using b tracked_pending [OF t] by (auto simp add: in_bounds_def)
  have 10: "at ?g = Thrown \<longrightarrow> length (outs ?g) \<le> count"
    using b by (auto simp add: in_bounds_def)
  have 7: "\<exists>m. prefetch xs count f = reached count f xs m"
    unfolding prefetch_def reached_def by (rule drive_funpow)
  have 8: "ended (prefetch xs count f)"
    unfolding prefetch_def by (rule ended_drive)
  have 9: "(\<forall>x \<in> set xs. \<exists>v. outcome (f x) = Inr v) \<longrightarrow>
      at (prefetch xs count f) = Returned \<and> outs (prefetch xs count f) = []"
  proof
    assume "\<forall>x \<in> set xs. \<exists>v. outcome (f x) = Inr v"
    then have "length (good (plan f (start xs))) = length (plan f (start xs))"
      by (intro good_resolved) (auto simp add: plan_start)
    then have a: "at (prefetch xs count f) = Returned"
      using fate_drive [OF bounds_start, of count f xs]
      by (simp add: prefetch_def fate_def start_sel)
    have "in_bounds count (prefetch xs count f)"
      unfolding prefetch_def by (rule bounds_drive) (rule bounds_start)
    with a show "at (prefetch xs count f) = Returned \<and> outs (prefetch xs count f) = []"
      by (simp add: in_bounds_def)
  qed
  from 0 1 2 3 4 5 6 10 7 8 9 show ?thesis by blast
qed

theorem prefetch_window_bounded_witness:
  "pending (reached 2 (squaring 0) [1, 2, 3, 4] 5) = 3 \<and>
   at (reached 2 (squaring 0) [1, 2, 3, 4] 4) = ForAwait \<and>
   length (outs (reached 2 (squaring 0) [1, 2, 3, 4] 4)) = 2 \<and>
   length (outs (reached 2 (squaring 0) [1, 2, 3, 4] 5)) = 3 \<and>
   at (reached 2 (squaring 0) [1, 2, 3, 4] 14) = Returned \<and>
   outs (reached 2 (squaring 0) [1, 2, 3, 4] 14) = [] \<and>
   pending (reached 2 (squaring 0) [1, 2, 3, 4] 14) = 0 \<and>
   at (prefetch [1, 2, 3, 4] 2 (squaring 0)) = Returned \<and>
   outs (prefetch [1, 2, 3, 4] 2 (squaring 0)) = [] \<and>
   at (reached 2 (squaring 3) [1, 2, 3, 4, 5, 6] 12) = Thrown \<and>
   length (outs (reached 2 (squaring 3) [1, 2, 3, 4, 5, 6] 12)) \<le> 2"
proof -
  have 12: "at (reached 2 (squaring 3) [1, 2, 3, 4, 5, 6] 12) = Thrown"
    by (simp add: reached_def eval_nat_numeral start_def step_def yield_shift_def shift_def
        squaring_def)
  have 4: "reached 2 (squaring 0) [1, 2, 3, 4] 4 =
      \<lparr>items = [3, 4], outs = [squaring 0 1, squaring 0 2], at = ForAwait,
       trace = [Submitted 1, Submitted 2], clock = 0\<rparr>"
    by (simp add: reached_def eval_nat_numeral start_def step_def)
  have "reached 2 (squaring 0) [1, 2, 3, 4] 5 = step 2 (squaring 0) (reached 2 (squaring 0) [1, 2, 3, 4] 4)"
    by (simp add: reached_def eval_nat_numeral)
  with 4 have 5: "pending (reached 2 (squaring 0) [1, 2, 3, 4] 5) = 3"
    by (simp add: step_def pending_def)
  have 14: "at (reached 2 (squaring 0) [1, 2, 3, 4] 14) = Returned"
    by (simp add: reached_def eval_nat_numeral start_def step_def yield_shift_def shift_def
        squaring_def)
  have "\<forall>x \<in> set [1, 2, 3, 4]. \<exists>v. outcome (squaring 0 x) = Inr v"
    by (simp add: squaring_def)
  with 4 5 14 12 show ?thesis
    using prefetch_window_bounded [of 2 "squaring 0" "[1, 2, 3, 4]" 4]
      prefetch_window_bounded [of 2 "squaring 0" "[1, 2, 3, 4]" 14]
      prefetch_window_bounded [of 2 "squaring 3" "[1, 2, 3, 4, 5, 6]" 12]
    by simp
qed

text \<open>
  Claim C2 as stated says that the window is fully drained before the generator
  terminates, for every transform. With the source \<open>[1, 2, 3, 4, 5, 6]\<close>, \<open>count = 2\<close>
  and a transform that rejects on \<open>3\<close>, the generator ends by raising the error with
  two promises, those of \<open>4\<close> and \<open>5\<close>, still in the window.
\<close>
theorem prefetch_window_left_counterexample:
  "ended (prefetch [1, 2, 3, 4, 5, 6] 2 (squaring 3)) \<and>
   at (prefetch [1, 2, 3, 4, 5, 6] 2 (squaring 3)) = Thrown \<and>
   length (outs (prefetch [1, 2, 3, 4, 5, 6] 2 (squaring 3))) = 2"
  by (simp add: prefetch_def start_def drive.simps ended_def step_def yield_shift_def shift_def
      squaring_def)

subsection \<open>The task tracker: proofs\<close>

lemma notify_sel [simp]:
  "logs (snd (notify t)) = logs t" "isRunning (snd (notify t)) = isRunning t"
  "wallclock (snd (notify t)) = wallclock t"
  by (simp_all add: notify_def set_store_def split: option.split)

lemma quiet_update [simp]:
  "quiet (t\<lparr>logs := l\<rparr>) = quiet t" "quiet (t\<lparr>isRunning := b\<rparr>) = quiet t"
  "quiet (t\<lparr>wallclock := c\<rparr>) = quiet t"
  by (simp_all add: quiet_def)

lemma notify_quiet: "quiet t \<Longrightarrow> fst (notify t) = None \<and> quiet (snd (notify t))"
  by (auto simp add: quiet_def notify_def set_store_def split: option.splits)

lemma writeLog_sel [simp]:
  "logs (snd (writeLog entry t)) = logs t @ [entry]"
  "isRunning (snd (writeLog entry t)) = isRunning t"
  "wallclock (snd (writeLog entry t)) = wallclock t"
  by (simp_all add: writeLog_def)

lemma writeLog_quiet:
  "quiet t \<Longrightarrow> fst (writeLog entry t) = None \<and> quiet (snd (writeLog entry t))"
  using notify_quiet [of "t\<lparr>logs := logs t @ [entry]\<rparr>"] by (simp add: writeLog_def)

lemma clear_sel [simp]:
  "logs (snd (clear t)) = []" "isRunning (snd (clear t)) = isRunning t"
  "wallclock (snd (clear t)) = wallclock t"
  by (simp_all add: clear_def)

lemma clear_quiet: "quiet t \<Longrightarrow> fst (clear t) = None \<and> quiet (snd (clear t))"
  using notify_quiet [of "t\<lparr>logs := []\<rparr>"] by (simp add: clear_def)

lemma log_quiet: "quiet t \<Longrightarrow> fst (log msg t) = None \<and> quiet (snd (log msg t))"
  by (simp add: log_def writeLog_quiet)



lemma log_sel [simp]:
  "logs (snd (log msg t)) =
     logs t @ [\<lparr>timestamp = wallclock t, message = msg, isError = None, isWarning = None\<rparr>]"
  "isRunning (snd (log msg t)) = isRunning t" "wallclock (snd (log msg t)) = wallclock t"
  by (simp_all add: log_def)

lemma warn_sel [simp]:
  "logs (snd (warn msg t)) =
     logs t @ [\<lparr>timestamp = wallclock t, message = msg, isError = None, isWarning = Some True\<rparr>]"
  "isRunning (snd (warn msg t)) = isRunning t" "wallclock (snd (warn msg t)) = wallclock t"
  by (simp_all add: warn_def)

lemma error_sel [simp]:
  "logs (snd (error msg t)) =
     logs t @ [\<lparr>timestamp = wallclock t, message = msg, isError = Some True, isWarning = None\<rparr>]"
  "isRunning (snd (error msg t)) = isRunning t" "wallclock (snd (error msg t)) = wallclock t"
  by (simp_all add: error_def)

lemma begun_sel:
  "logs (begun t) =
     [\<lparr>timestamp = wallclock t, message = ''Begin'', isError = None, isWarning = None\<rparr>]"
  "isRunning (begun t)" "wallclock (begun t) = wallclock t"
  by (simp_all add: begun_def)

lemma begun_quiet: "quiet t \<Longrightarrow> quiet (begun t)"
  by (simp add: begun_def log_quiet clear_quiet)

lemma run_unfold:
  "run describe asyncTask t =
     (case clear t of
        (Some e, t1) \<Rightarrow> (Some e, t1)
      | (None, t1) \<Rightarrow>
          (case log ''Begin'' (t1\<lparr>isRunning := True\<rparr>) of
             (Some e, t2) \<Rightarrow> (Some e, t2)
           | (None, t2) \<Rightarrow>
               (case try_catch asyncTask (caught describe) t2 of
                  (Some e, t3) \<Rightarrow> (Some e, t3)
                | (None, t3) \<Rightarrow> log ''Done'' (t3\<lparr>isRunning := False\<rparr>))))"
  by (simp add: run_def assign_def split: prod.split option.split)





lemma run_completes:
  assumes "fst (run describe asyncTask t) = None"
  shows "\<exists>t3. try_catch asyncTask (caught describe) (begun t) = (None, t3) \<and>
     snd (run describe asyncTask t) = snd (log ''Done'' (t3\<lparr>isRunning := False\<rparr>))"
  using assms
  by (auto simp add: run_unfold begun_def split: prod.splits option.splits)

lemma try_catch_completes:
  assumes "try_catch asyncTask (caught describe) s = (None, t3)"
  shows "wallclock t3 = wallclock (snd (asyncTask s)) \<and>
     logs t3 =
       logs (snd (asyncTask s)) @
       (case fst (asyncTask s) of
          Some e \<Rightarrow>
            (case describe e of
               Inr descr \<Rightarrow>
                 [\<lparr>timestamp = wallclock (snd (asyncTask s)),
                   message = ''Task threw an exception: '' @ descr,
                   isError = Some True, isWarning = None\<rparr>]
             | Inl thrown \<Rightarrow> [])
        | None \<Rightarrow> [])"
proof (cases "asyncTask s")
  case (Pair r t')
  show ?thesis
  proof (cases r)
    case None
    with Pair assms show ?thesis by (simp add: try_catch_def)
  next
    case (Some e)
    show ?thesis
    proof (cases "describe e")
      case (Inl thrown)
      with Pair Some assms show ?thesis by (simp add: try_catch_def caught_def)
    next
      case (Inr descr)
      with Pair Some assms have "error (''Task threw an exception: '' @ descr) t' = (None, t3)"
        by (simp add: try_catch_def caught_def)
      then have "snd (error (''Task threw an exception: '' @ descr) t') = t3"
        by simp
      then have "logs t3 = logs t' @
          [\<lparr>timestamp = wallclock t', message = ''Task threw an exception: '' @ descr,
            isError = Some True, isWarning = None\<rparr>]"
        and "wallclock t3 = wallclock t'"
        using error_sel [of "''Task threw an exception: '' @ descr" t'] by simp_all
      with Pair Some Inr show ?thesis by simp
    qed
  qed
qed

text \<open>
  Claim C10, as the code has it. Whatever the log held before, the task starts on a log
  that holds the entry \<open>Begin\<close> and nothing else. When \<open>run\<close> completes, the last entry
  is the entry \<open>Done\<close>, whether the task threw or not; and when the log only grew while
  the task was pending (entries \<open>es\<close> were appended, nothing was removed), the log after
  \<open>run\<close> is \<open>Begin\<close>, then \<open>es\<close>, then the error entry if the task threw, then \<open>Done\<close>:
  it describes this run only and its first entry is \<open>Begin\<close>.
\<close>
theorem run_resets_history:
  "logs (begun t) =
     [\<lparr>timestamp = wallclock t, message = ''Begin'', isError = None, isWarning = None\<rparr>] \<and>
   (fst (run describe asyncTask t) = None \<longrightarrow>
      last (logs (snd (run describe asyncTask t))) =
        \<lparr>timestamp = wallclock (snd (asyncTask (begun t))), message = ''Done'',
         isError = None, isWarning = None\<rparr> \<and>
      (\<forall>es. logs (snd (asyncTask (begun t))) = logs (begun t) @ es \<longrightarrow>
         hd (logs (snd (run describe asyncTask t))) =
           \<lparr>timestamp = wallclock t, message = ''Begin'', isError = None, isWarning = None\<rparr> \<and>
         logs (snd (run describe asyncTask t)) =
           \<lparr>timestamp = wallclock t, message = ''Begin'', isError = None, isWarning = None\<rparr> #
           es @
           (case fst (asyncTask (begun t)) of
              Some e \<Rightarrow>
                (case describe e of
                   Inr descr \<Rightarrow>
                     [\<lparr>timestamp = wallclock (snd (asyncTask (begun t))),
                       message = ''Task threw an exception: '' @ descr,
                       isError = Some True, isWarning = None\<rparr>]
                 | Inl thrown \<Rightarrow> [])
            | None \<Rightarrow> []) @
           [\<lparr>timestamp = wallclock (snd (asyncTask (begun t))), message = ''Done'',
             isError = None, isWarning = None\<rparr>]))"
proof (intro conjI impI)
  show "logs (begun t) =
     [\<lparr>timestamp = wallclock t, message = ''Begin'', isError = None, isWarning = None\<rparr>]"
    by (simp add: begun_sel)
next
  assume "fst (run describe asyncTask t) = None"
  then obtain t3 where "try_catch asyncTask (caught describe) (begun t) = (None, t3)"
    and "snd (run describe asyncTask t) = snd (log ''Done'' (t3\<lparr>isRunning := False\<rparr>))"
    using run_completes by blast
  then show "last (logs (snd (run describe asyncTask t))) =
        \<lparr>timestamp = wallclock (snd (asyncTask (begun t))), message = ''Done'',
         isError = None, isWarning = None\<rparr>"
    using try_catch_completes [of asyncTask describe "begun t" t3] by simp
next
  assume "fst (run describe asyncTask t) = None"
  then obtain t3 where "try_catch asyncTask (caught describe) (begun t) = (None, t3)"
    and "snd (run describe asyncTask t) = snd (log ''Done'' (t3\<lparr>isRunning := False\<rparr>))"
    using run_completes by blast
  then show "\<forall>es. logs (snd (asyncTask (begun t))) = logs (begun t) @ es \<longrightarrow>
         hd (logs (snd (run describe asyncTask t))) =
           \<lparr>timestamp = wallclock t, message = ''Begin'', isError = None, isWarning = None\<rparr> \<and>
         logs (snd (run describe asyncTask t)) =
           \<lparr>timestamp = wallclock t, message = ''Begin'', isError = None, isWarning = None\<rparr> #
           es @
           (case fst (asyncTask (begun t)) of
              Some e \<Rightarrow>
                (case describe e of
                   Inr descr \<Rightarrow>
                     [\<lparr>timestamp = wallclock (snd (asyncTask (begun t))),
                       message = ''Task threw an exception: '' @ descr,
                       isError = Some True, isWarning = None\<rparr>]
                 | Inl thrown \<Rightarrow> [])
            | None \<Rightarrow> []) @
           [\<lparr>timestamp = wallclock (snd (asyncTask (begun t))), message = ''Done'',
             isError = None, isWarning = None\<rparr>]"
    using try_catch_completes [of asyncTask describe "begun t" t3] by (simp add: begun_sel)
qed

theorem run_resets_history_witness:
  "logs used_tracker = [\<lparr>timestamp = 5, message = ''Done'', isError = None, isWarning = None\<rparr>] \<and>
   fst (run to_text quiet_task used_tracker) = None \<and>
   hd (logs (snd (run to_text quiet_task used_tracker))) =
     \<lparr>timestamp = 7, message = ''Begin'', isError = None, isWarning = None\<rparr> \<and>
   last (logs (snd (run to_text quiet_task used_tracker))) =
     \<lparr>timestamp = 7, message = ''Done'', isError = None, isWarning = None\<rparr> \<and>
   logs (snd (run to_text quiet_task used_tracker)) =
     [\<lparr>timestamp = 7, message = ''Begin'', isError = None, isWarning = None\<rparr>,
      \<lparr>timestamp = 7, message = ''fetched'', isError = None, isWarning = None\<rparr>,
      \<lparr>timestamp = 7, message = ''Done'', isError = None, isWarning = None\<rparr>]"
proof -
  have completes: "fst (run to_text quiet_task used_tracker) = None"
    by (simp add: run_def assign_def try_catch_def quiet_task_def log_def clear_def
        writeLog_def notify_def set_store_def used_tracker_def)
  have clock: "wallclock used_tracker = 7"
    and old: "logs used_tracker =
      [\<lparr>timestamp = 5, message = ''Done'', isError = None, isWarning = None\<rparr>]"
    by (simp_all add: used_tracker_def)
  have none: "fst (quiet_task (begun used_tracker)) = None"
    using log_quiet [of "begun used_tracker" "''fetched''"] begun_quiet [of used_tracker]
    by (simp add: quiet_task_def quiet_def used_tracker_def)
  have grown: "logs (snd (quiet_task (begun used_tracker))) =
      logs (begun used_tracker) @
      [\<lparr>timestamp = 7, message = ''fetched'', isError = None, isWarning = None\<rparr>]"
    using clock by (simp add: quiet_task_def begun_sel)
  have "wallclock (snd (quiet_task (begun used_tracker))) = 7"
    using clock by (simp add: quiet_task_def begun_sel)
  with completes clock old none grown show ?thesis
    using run_resets_history [of used_tracker to_text quiet_task]
    by simp
qed

text \<open>
  Claim C10 as stated says that the first entry after \<open>run\<close> is \<open>Begin\<close> for every
  invocation. A task that logs \<open>a\<close>, calls the public \<^verbatim>\<open>clear()\<close> and logs \<open>b\<close> leaves
  the log \<open>b\<close>, \<open>Done\<close>: \<open>run\<close> completes and the first entry is not \<open>Begin\<close>.
\<close>
theorem run_task_clears_counterexample:
  "fst (run to_text clearing_task used_tracker) = None \<and>
   logs (snd (run to_text clearing_task used_tracker)) =
     [\<lparr>timestamp = 7, message = ''b'', isError = None, isWarning = None\<rparr>,
      \<lparr>timestamp = 7, message = ''Done'', isError = None, isWarning = None\<rparr>] \<and>
   message (hd (logs (snd (run to_text clearing_task used_tracker)))) \<noteq> ''Begin''"
  by (simp add: run_def assign_def try_catch_def clearing_task_def log_def clear_def
      writeLog_def notify_def set_store_def used_tracker_def)

end
